theory Spec2Isabelle
  imports Main "HOL-Library.Sublist" "HOL-Library.Multiset"
begin

section \<open>Wildcard matching\<close>

text \<open>
  \<^verbatim>\<open>String.prototype.split(/[:.]/)\<close>: the string is cut at every \<^verbatim>\<open>:\<close> and every
  \<^verbatim>\<open>.\<close>; the result always has at least one part, and the empty string gives one
  empty part.
\<close>

definition isSep :: "char \<Rightarrow> bool" where
  "isSep c = (c = CHR '':'' \<or> c = CHR ''.'')"

fun split_sep :: "string \<Rightarrow> string list" where
  "split_sep [] = [[]]"
| "split_sep (c # cs) =
     (if isSep c then [] # split_sep cs
      else (case split_sep cs of
              [] \<Rightarrow> [[c]]
            | w # ws \<Rightarrow> (c # w) # ws))"

text \<open>
  The main loop of \<^verbatim>\<open>matchWildcard\<close>. \<open>pi\<close> and \<open>ei\<close> are the two cursors;
  \<open>starPi\<close> and \<open>starEi\<close> are the backtrack anchor, with the source's sentinel \<open>-1\<close>.
  When the event parts are used up, the second loop skips trailing \<^verbatim>\<open>**\<close> parts
  (\<open>skipStars\<close>) and the result is whether the pattern cursor reached the end.
\<close>

function skipStars :: "string list \<Rightarrow> nat \<Rightarrow> nat" where
  "skipStars patternParts pi =
     (if pi < length patternParts \<and> patternParts ! pi = ''**''
      then skipStars patternParts (pi + 1) else pi)"
  by pat_completeness auto
termination
  by (relation "measure (\<lambda>(patternParts, pi). length patternParts - pi)") auto

function matchLoop :: "string list \<Rightarrow> string list \<Rightarrow> nat \<Rightarrow> nat \<Rightarrow> int \<Rightarrow> int \<Rightarrow> bool" where
  "matchLoop patternParts eventParts pi ei starPi starEi =
     (if ei < length eventParts then
        (if pi < length patternParts \<and> patternParts ! pi = ''**'' then
           matchLoop patternParts eventParts (pi + 1) ei (int pi) (int ei)
         else if pi < length patternParts \<and>
                 (patternParts ! pi = ''*'' \<or> patternParts ! pi = eventParts ! ei) then
           matchLoop patternParts eventParts (pi + 1) (ei + 1) starPi starEi
         else if starPi \<noteq> - 1 then
           matchLoop patternParts eventParts (nat (starPi + 1)) (nat (starEi + 1)) starPi (starEi + 1)
         else False)
      else skipStars patternParts pi = length patternParts)"
  by pat_completeness auto
termination
  by (relation "measures
        [\<lambda>(patternParts, eventParts, pi, ei, starPi, starEi).
            nat (int (length eventParts) + 1 - min (starEi + 1) (int ei + 1)),
         \<lambda>(patternParts, eventParts, pi, ei, starPi, starEi).
            (length patternParts - pi) + (length eventParts - ei)]")
     auto

definition matchWildcard :: "string \<Rightarrow> string \<Rightarrow> bool" where
  "matchWildcard pattern event = matchLoop (split_sep pattern) (split_sep event) 0 0 (- 1) (- 1)"

declare skipStars.simps [simp del] matchLoop.simps [simp del]

section \<open>The emitter\<close>

text \<open>
  A listener is a callback supplied by the caller. Its body is modelled as a script:
  it may subscribe a further listener, call \<^verbatim>\<open>off()\<close> on a subscription handle, and
  throw. A listener that publishes from inside its own body is outside this model.
  Every \<^verbatim>\<open>StoredListener\<close> object gets a number \<open>sid\<close> when \<^verbatim>\<open>on\<close> creates it;
  the source's comparisons of object identity (\<^verbatim>\<open>indexOf\<close>, \<^verbatim>\<open>===\<close>) compare \<open>sid\<close>.
  Priorities are taken to be integers.

  The asynchronous forms \<^verbatim>\<open>emitAsync\<close>, \<^verbatim>\<open>resumeAsync\<close> and \<^verbatim>\<open>dispatchAsync\<close>, which
  await each listener before the next one, and the helpers \<^verbatim>\<open>wait\<close> and \<^verbatim>\<open>eventNames\<close>
  are not modelled. The class declares no constructor: a new emitter takes no options.
\<close>

type_synonym payload = nat
type_synonym error = string

datatype subscription = Subscription (subWild: bool) (subEvent: string) (subStored: nat)

datatype action =
    Throw error
  | Off subscription
  | On string "action list" "bool option" "int option"

record stored =
  sid :: nat
  fn :: "action list"
  once :: bool
  priority :: int

text \<open>
  The fields of the class, followed by three fields of bookkeeping that the class does
  not have: the next free \<open>sid\<close>, the log of listener invocations, and the log of
  \<^verbatim>\<open>console.warn\<close> calls (event and list length).
\<close>

record emitter =
  listeners :: "string \<rightharpoonup> stored list"
  wildcardListeners :: "(string \<times> stored) list"
  maxListeners :: int
  paused :: bool
  buffer :: "(string \<times> payload) list"
  maxBufferSize :: int
  nextId :: nat
  calls :: "(nat \<times> payload) list"
  warnings :: "(string \<times> nat) list"

definition newEmitter :: emitter where
  "newEmitter = \<lparr> listeners = Map.empty, wildcardListeners = [], maxListeners = 10,
                  paused = False, buffer = [], maxBufferSize = 1000,
                  nextId = 0, calls = [], warnings = [] \<rparr>"

definition setMaxListeners :: "int \<Rightarrow> emitter \<Rightarrow> emitter" where
  "setMaxListeners n st = st\<lparr>maxListeners := n\<rparr>"

definition setMaxBufferSize :: "int \<Rightarrow> emitter \<Rightarrow> emitter" where
  "setMaxBufferSize n st = st\<lparr>maxBufferSize := n\<rparr>"

text \<open>\<^verbatim>\<open>Array.prototype.sort\<close> is stable; the comparator orders by descending priority.\<close>

definition sortByPriority :: "stored list \<Rightarrow> stored list" where
  "sortByPriority = sort_key (\<lambda>s. - priority s)"

definition sortWildByPriority :: "(string \<times> stored) list \<Rightarrow> (string \<times> stored) list" where
  "sortWildByPriority = sort_key (\<lambda>w. - priority (snd w))"

text \<open>\<^verbatim>\<open>indexOf\<close>/\<^verbatim>\<open>findIndex\<close> followed by \<^verbatim>\<open>splice(idx, 1)\<close>: the first hit is removed.\<close>

fun removeStored :: "nat \<Rightarrow> stored list \<Rightarrow> stored list" where
  "removeStored i [] = []"
| "removeStored i (s # ss) = (if sid s = i then ss else s # removeStored i ss)"

fun removeWild :: "nat \<Rightarrow> (string \<times> stored) list \<Rightarrow> (string \<times> stored) list" where
  "removeWild i [] = []"
| "removeWild i (w # ws) = (if sid (snd w) = i then ws else w # removeWild i ws)"

definition on :: "string \<Rightarrow> action list \<Rightarrow> bool option \<Rightarrow> int option \<Rightarrow> emitter
                  \<Rightarrow> subscription \<times> emitter" where
  "on event listener optOnce optPriority st =
     (let s = \<lparr> sid = nextId st, fn = listener,
                once = (case optOnce of None \<Rightarrow> False | Some b \<Rightarrow> b),
                priority = (case optPriority of None \<Rightarrow> 0 | Some n \<Rightarrow> n) \<rparr>;
          isWild = (CHR ''*'' \<in> set event);
          st1 = st\<lparr>nextId := Suc (nextId st)\<rparr>
      in (Subscription isWild event (sid s),
          if isWild then
            st1\<lparr>wildcardListeners := sortWildByPriority (wildcardListeners st1 @ [(event, s)])\<rparr>
          else
            (let list = sortByPriority
                          ((case listeners st1 event of None \<Rightarrow> [] | Some l \<Rightarrow> l) @ [s]);
                 st2 = st1\<lparr>listeners := (listeners st1)(event \<mapsto> list)\<rparr>
             in if maxListeners st2 > 0 \<and> int (length list) > maxListeners st2
                then st2\<lparr>warnings := warnings st2 @ [(event, length list)]\<rparr>
                else st2)))"

fun off :: "subscription \<Rightarrow> emitter \<Rightarrow> emitter" where
  "off (Subscription isWild event i) st =
     (if isWild then
        st\<lparr>wildcardListeners := removeWild i (wildcardListeners st)\<rparr>
      else
        (case listeners st event of
           None \<Rightarrow> st
         | Some list \<Rightarrow>
             (let list' = removeStored i list
              in if list' = [] then st\<lparr>listeners := (listeners st)(event := None)\<rparr>
                 else st\<lparr>listeners := (listeners st)(event \<mapsto> list')\<rparr>)))"

text \<open>The method \<^verbatim>\<open>once\<close> of the class; the name \<open>once\<close> is the field of \<open>stored\<close>.\<close>

definition once_on :: "string \<Rightarrow> action list \<Rightarrow> int option \<Rightarrow> emitter \<Rightarrow> subscription \<times> emitter" where
  "once_on event listener optPriority st = on event listener (Some True) optPriority st"

definition pause :: "emitter \<Rightarrow> emitter" where
  "pause st = st\<lparr>paused := True\<rparr>"

definition listenerCount :: "emitter \<Rightarrow> string \<Rightarrow> nat" where
  "listenerCount st event = (case listeners st event of None \<Rightarrow> 0 | Some l \<Rightarrow> length l)"

definition clear :: "string option \<Rightarrow> emitter \<Rightarrow> emitter" where
  "clear optEvent st =
     (case optEvent of
        Some event \<Rightarrow>
          st\<lparr>listeners := (listeners st)(event := None),
             wildcardListeners := filter (\<lambda>w. fst w \<noteq> event) (wildcardListeners st)\<rparr>
      | None \<Rightarrow> st\<lparr>listeners := Map.empty, wildcardListeners := []\<rparr>)"

definition dispose :: "emitter \<Rightarrow> emitter" where
  "dispose st = st\<lparr>listeners := Map.empty, wildcardListeners := [], buffer := [], paused := False\<rparr>"

subsection \<open>Dispatch\<close>

definition collectListeners :: "emitter \<Rightarrow> string \<Rightarrow> stored list" where
  "collectListeners st event =
     (let exact = (case listeners st event of None \<Rightarrow> [] | Some l \<Rightarrow> l);
          wild = map snd (filter (\<lambda>w. matchWildcard (fst w) event) (wildcardListeners st))
      in sortByPriority (exact @ wild))"

definition pruneOnce :: "string \<Rightarrow> stored list \<Rightarrow> emitter \<Rightarrow> emitter" where
  "pruneOnce event fired st =
     (let onceFired = filter once fired
      in if onceFired = [] then st
         else
           (let st1 = (case listeners st event of
                         None \<Rightarrow> st
                       | Some list \<Rightarrow>
                           (let list' = foldl (\<lambda>l s. removeStored (sid s) l) list onceFired
                            in if list' = [] then st\<lparr>listeners := (listeners st)(event := None)\<rparr>
                               else st\<lparr>listeners := (listeners st)(event \<mapsto> list')\<rparr>))
            in st1\<lparr>wildcardListeners :=
                     foldl (\<lambda>ws s. removeWild (sid s) ws) (wildcardListeners st1) onceFired\<rparr>))"

text \<open>
  Running the body of a listener: the first \<open>Throw\<close> ends it with that error, and what the
  body did before stays done.
\<close>

fun exec :: "action list \<Rightarrow> emitter \<Rightarrow> error option \<times> emitter" where
  "exec [] st = (None, st)"
| "exec (Throw e # as) st = (Some e, st)"
| "exec (Off h # as) st = exec as (off h st)"
| "exec (On event body optOnce optPriority # as) st =
     exec as (snd (on event body optOnce optPriority st))"

text \<open>\<^verbatim>\<open>stored.fn(payload)\<close>: the call is logged, then the body runs.\<close>

definition invoke :: "stored \<Rightarrow> payload \<Rightarrow> emitter \<Rightarrow> error option \<times> emitter" where
  "invoke s p st = exec (fn s) (st\<lparr>calls := calls st @ [(sid s, p)]\<rparr>)"

text \<open>The \<^verbatim>\<open>for ... of\<close> loop over the collected array; a throw leaves the loop.\<close>

fun invokeAll :: "stored list \<Rightarrow> payload \<Rightarrow> emitter \<Rightarrow> error option \<times> emitter" where
  "invokeAll [] p st = (None, st)"
| "invokeAll (s # ss) p st =
     (case invoke s p st of
        (Some e, st') \<Rightarrow> (Some e, st')
      | (None, st') \<Rightarrow> invokeAll ss p st')"

text \<open>A result is \<open>Inl e\<close> when the call threw \<open>e\<close> and \<open>Inr v\<close> when it returned \<open>v\<close>.\<close>

definition dispatch :: "string \<Rightarrow> payload \<Rightarrow> emitter \<Rightarrow> (error + bool) \<times> emitter" where
  "dispatch event p st =
     (let ls = collectListeners st event
      in if ls = [] then (Inr False, st)
         else (case invokeAll ls p st of
                 (Some e, st') \<Rightarrow> (Inl e, st')
               | (None, st') \<Rightarrow> (Inr True, pruneOnce event ls st')))"

definition emit :: "string \<Rightarrow> payload \<Rightarrow> emitter \<Rightarrow> (error + bool) \<times> emitter" where
  "emit event p st =
     (if paused st then
        (Inr False,
         if int (length (buffer st)) < maxBufferSize st
         then st\<lparr>buffer := buffer st @ [(event, p)]\<rparr> else st)
      else dispatch event p st)"

fun replay :: "(string \<times> payload) list \<Rightarrow> emitter \<Rightarrow> (error + unit) \<times> emitter" where
  "replay [] st = (Inr (), st)"
| "replay ((event, p) # pending) st =
     (case dispatch event p st of
        (Inl e, st') \<Rightarrow> (Inl e, st')
      | (Inr b, st') \<Rightarrow> replay pending st')"

definition resume :: "emitter \<Rightarrow> (error + unit) \<times> emitter" where
  "resume st = replay (buffer st) (st\<lparr>paused := False, buffer := []\<rparr>)"



subsection \<open>Notions used to state the properties\<close>

text \<open>
  The error of the first \<open>Throw\<close> of a body; the error of the first listener of a list
  that throws; the listeners of a list up to and including the first one that throws.
\<close>

fun first_throw :: "action list \<Rightarrow> error option" where
  "first_throw [] = None"
| "first_throw (Throw e # as) = Some e"
| "first_throw (a # as) = first_throw as"

fun thrown :: "stored list \<Rightarrow> error option" where
  "thrown [] = None"
| "thrown (s # ss) = (case first_throw (fn s) of Some e \<Rightarrow> Some e | None \<Rightarrow> thrown ss)"

fun invoked :: "stored list \<Rightarrow> stored list" where
  "invoked [] = []"
| "invoked (s # ss) = s # (if first_throw (fn s) = None then invoked ss else [])"


definition exactEntries :: "emitter \<Rightarrow> string \<Rightarrow> stored list" where
  "exactEntries st event = (case listeners st event of None \<Rightarrow> [] | Some l \<Rightarrow> l)"


definition newCalls :: "emitter \<Rightarrow> emitter \<Rightarrow> (nat \<times> payload) list" where
  "newCalls st st' = drop (length (calls st)) (calls st')"

text \<open>
  The entries held by the two registries, and the \<open>sid\<close>s that the \<open>Off\<close> actions of a
  body name.
\<close>

definition entries :: "emitter \<Rightarrow> stored set" where
  "entries st = {s. \<exists>ev l. listeners st ev = Some l \<and> s \<in> set l} \<union> snd ` set (wildcardListeners st)"



definition ex_throwing :: emitter where
  "ex_throwing =
     snd (on ''ping'' [] None None
       (snd (on ''ping'' [Throw ''fail''] None None
         (snd (on ''ping'' [] None None newEmitter)))))"

text \<open>
  The public operations that change an emitter, and a caller that runs a sequence of
  them. A call that throws leaves the emitter as it was at the throw, and the caller goes
  on with the next operation.
\<close>

datatype op =
    OpOn string "action list" "bool option" "int option"
  | OpOnce string "action list" "int option"
  | OpOff subscription
  | OpEmit string payload
  | OpPause
  | OpResume
  | OpClear "string option"
  | OpDispose
  | OpSetMaxListeners int
  | OpSetMaxBufferSize int

fun run_op :: "op \<Rightarrow> emitter \<Rightarrow> emitter" where
  "run_op (OpOn event body optOnce optPriority) st = snd (on event body optOnce optPriority st)"
| "run_op (OpOnce event body optPriority) st = snd (once_on event body optPriority st)"
| "run_op (OpOff h) st = off h st"
| "run_op (OpEmit event p) st = snd (emit event p st)"
| "run_op OpPause st = pause st"
| "run_op OpResume st = snd (resume st)"
| "run_op (OpClear optEvent) st = clear optEvent st"
| "run_op OpDispose st = dispose st"
| "run_op (OpSetMaxListeners n) st = setMaxListeners n st"
| "run_op (OpSetMaxBufferSize n) st = setMaxBufferSize n st"

fun run_ops :: "op list \<Rightarrow> emitter \<Rightarrow> emitter" where
  "run_ops [] st = st"
| "run_ops (x # xs) st = run_ops xs (run_op x st)"

definition bufferBounded :: "emitter \<Rightarrow> bool" where
  "bufferBounded st = (int (length (buffer st)) \<le> maxBufferSize st)"

text \<open>No \<^verbatim>\<open>setMaxBufferSize(n)\<close> of the sequence is called with \<open>n\<close> below the length that the
  buffer has at that moment.\<close>

fun sizeChangesOk :: "op list \<Rightarrow> emitter \<Rightarrow> bool" where
  "sizeChangesOk [] st = True"
| "sizeChangesOk (OpSetMaxBufferSize n # xs) st =
     (int (length (buffer st)) \<le> n \<and> sizeChangesOk xs (run_op (OpSetMaxBufferSize n) st))"
| "sizeChangesOk (x # xs) st = sizeChangesOk xs (run_op x st)"

definition ex_full :: emitter where
  "ex_full = run_ops [OpSetMaxBufferSize 2, OpPause, OpEmit ''a'' 1, OpEmit ''a'' 2] newEmitter"

definition ex_shrunk :: emitter where
  "ex_shrunk =
     run_ops [OpPause, OpEmit ''a'' 1, OpEmit ''a'' 2, OpEmit ''a'' 3, OpSetMaxBufferSize 2] newEmitter"

definition ex_one :: emitter where
  "ex_one = snd (on ''ping'' [] None None newEmitter)"

definition ex_paused :: emitter where
  "ex_paused = pause ex_one"

text \<open>
  The well-formedness of the registries: a \<open>sid\<close> stands for one object, which \<^verbatim>\<open>on\<close>
  pushed into one list once, so no \<open>sid\<close> occurs twice in the registries and every
  \<open>sid\<close> in them was handed out already.
\<close>

definition wf :: "emitter \<Rightarrow> bool" where
  "wf st =
     ((\<forall>ev. distinct (map sid (exactEntries st ev)))
      \<and> distinct (map (\<lambda>w. sid (snd w)) (wildcardListeners st))
      \<and> (\<forall>ev ev' x y. x \<in> set (exactEntries st ev) \<and> y \<in> set (exactEntries st ev')
             \<and> sid x = sid y \<longrightarrow> ev = ev')
      \<and> (\<forall>ev x w. x \<in> set (exactEntries st ev) \<and> w \<in> set (wildcardListeners st)
             \<longrightarrow> sid x \<noteq> sid (snd w))
      \<and> (\<forall>ev x. x \<in> set (exactEntries st ev) \<longrightarrow> sid x < nextId st)
      \<and> (\<forall>w \<in> set (wildcardListeners st). sid (snd w) < nextId st))"

text \<open>One state comes from another by removals only.\<close>

definition shrinks :: "emitter \<Rightarrow> emitter \<Rightarrow> bool" where
  "shrinks st st' =
     ((\<forall>ev. subseq (exactEntries st' ev) (exactEntries st ev))
      \<and> subseq (wildcardListeners st') (wildcardListeners st)
      \<and> nextId st' = nextId st)"










section \<open>Properties of the matcher\<close>

lemma skipStars_literal:
  "''**'' \<notin> set pp \<Longrightarrow> skipStars pp i = i"
  by (subst skipStars.simps) (auto dest: nth_mem)

lemma matchLoop_literal:
  assumes "''*'' \<notin> set pp" and "''**'' \<notin> set pp"
  shows "i \<le> length pp \<Longrightarrow> matchLoop pp ep i j (- 1) (- 1) \<longleftrightarrow> drop i pp = drop j ep"
proof (induction "length ep - j" arbitrary: i j)
  case 0
  then have "drop j ep = []" by simp
  moreover have "matchLoop pp ep i j (- 1) (- 1) \<longleftrightarrow> i = length pp"
    using 0 assms by (subst matchLoop.simps) (simp add: skipStars_literal)
  ultimately show ?case using 0 by auto
next
  case (Suc n)
  then have j: "j < length ep" by simp
  show ?case
  proof (cases "i < length pp")
    case False
    then have "\<not> matchLoop pp ep i j (- 1) (- 1)"
      using j by (subst matchLoop.simps) simp
    moreover have "drop i pp = []" using False by simp
    moreover have "drop j ep \<noteq> []" using j by simp
    ultimately show ?thesis by simp
  next
    case True
    then have mem: "pp ! i \<in> set pp" by simp
    then have ne: "pp ! i \<noteq> ''*''" "pp ! i \<noteq> ''**''" using assms by auto
    have dp: "drop i pp = pp ! i # drop (Suc i) pp" using True by (simp add: Cons_nth_drop_Suc)
    have de: "drop j ep = ep ! j # drop (Suc j) ep" using j by (simp add: Cons_nth_drop_Suc)
    show ?thesis
    proof (cases "pp ! i = ep ! j")
      case eq: True
      have "matchLoop pp ep i j (- 1) (- 1) = matchLoop pp ep (i + 1) (j + 1) (- 1) (- 1)"
        using j True ne eq by (subst matchLoop.simps) simp
      also have "\<dots> \<longleftrightarrow> drop (i + 1) pp = drop (j + 1) ep"
        using Suc.hyps(1)[of "j + 1" "i + 1"] Suc.hyps(2) True by simp
      finally show ?thesis using dp de eq by simp
    next
      case neq: False
      have "\<not> matchLoop pp ep i j (- 1) (- 1)"
        using j True ne neq by (subst matchLoop.simps) simp
      then show ?thesis using dp de neq by simp
    qed
  qed
qed

text \<open>
  C2 (as amended). For a pattern none of whose segments is \<^verbatim>\<open>*\<close> or \<^verbatim>\<open>**\<close>,
  \<open>matchWildcard\<close> returns true exactly when the pattern and the event name split into the
  same sequence of segments at the delimiters \<^verbatim>\<open>:\<close> and \<^verbatim>\<open>.\<close>.
\<close>

theorem matchWildcard_literal:
  assumes "''*'' \<notin> set (split_sep p)" and "''**'' \<notin> set (split_sep p)"
  shows "matchWildcard p e \<longleftrightarrow> split_sep p = split_sep e"
  using matchLoop_literal[OF assms, of 0 "split_sep e" 0] by (simp add: matchWildcard_def)

text \<open>
  C2, an instance: \<^verbatim>\<open>a:b\<close> has no wildcard segment and has the segments of \<^verbatim>\<open>a.b\<close>.
\<close>

theorem matchWildcard_literal_witness:
  "''*'' \<notin> set (split_sep ''a:b'') \<and> ''**'' \<notin> set (split_sep ''a:b'') \<and>
   (matchWildcard ''a:b'' ''a.b'' \<longleftrightarrow> split_sep ''a:b'' = split_sep ''a.b'') \<and>
   split_sep ''a:b'' = split_sep ''a.b''"
  using matchWildcard_literal[of "''a:b''" "''a.b''"] by (simp add: isSep_def)

text \<open>
  C2 as first stated (a match exactly when the two strings are equal) fails: the pattern
  \<^verbatim>\<open>a:b\<close> contains no \<^verbatim>\<open>*\<close> at all and matches the different string \<^verbatim>\<open>a.b\<close>,
  because both delimiters cut segments.
\<close>

theorem matchWildcard_string_equality_counterexample:
  "CHR ''*'' \<notin> set ''a:b'' \<and> ''*'' \<notin> set (split_sep ''a:b'') \<and> ''**'' \<notin> set (split_sep ''a:b'') \<and>
   matchWildcard ''a:b'' ''a.b'' \<and> ''a:b'' \<noteq> ''a.b''"
  by code_simp

text \<open>
  C3. The documentation of \<^verbatim>\<open>matchWildcard\<close> says that \<^verbatim>\<open>**\<close> matches one or more
  segments, so \<^verbatim>\<open>a:**\<close> should not match \<^verbatim>\<open>a\<close>. The function returns true there: the
  loop after the main loop skips a trailing \<^verbatim>\<open>**\<close> that absorbed nothing, and inside a
  pattern a \<^verbatim>\<open>**\<close> followed by a matching segment absorbs nothing either.
\<close>

theorem matchWildcard_double_star_zero_segments:
  "matchWildcard ''a:**'' ''a'' \<and> matchWildcard ''user:**'' ''user'' \<and> matchWildcard ''a:**:b'' ''a:b''"
  by code_simp

section \<open>The invocation log\<close>

lemma on_calls [simp]: "calls (snd (on ev body o1 o2 st)) = calls st"
  by (simp add: on_def Let_def)

lemma off_calls [simp]: "calls (off h st) = calls st"
  by (cases h) (simp add: Let_def split: option.splits)

lemma exec_calls [simp]: "calls (snd (exec as st)) = calls st"
  by (induction as st rule: exec.induct) simp_all

lemma exec_fst [simp]: "fst (exec as st) = first_throw as"
  by (induction as st rule: exec.induct) simp_all





lemma pruneOnce_calls [simp]: "calls (pruneOnce ev fired st) = calls st"
  by (simp add: pruneOnce_def Let_def split: option.splits)





lemma invoked_thrown:
  "thrown ls = Some e \<Longrightarrow>
     \<exists>k<length ls. invoked ls = take (Suc k) ls \<and> first_throw (fn (ls ! k)) = Some e"
proof (induction ls)
  case Nil
  then show ?case by simp
next
  case (Cons s ss)
  show ?case
  proof (cases "first_throw (fn s)")
    case None
    then have "thrown ss = Some e" using Cons.prems by simp
    then obtain k where "k < length ss" "invoked ss = take (Suc k) ss"
        "first_throw (fn (ss ! k)) = Some e"
      using Cons.IH by blast
    then have "Suc k < length (s # ss) \<and> invoked (s # ss) = take (Suc (Suc k)) (s # ss)
                 \<and> first_throw (fn ((s # ss) ! Suc k)) = Some e"
      using None by simp
    then show ?thesis by blast
  next
    case (Some e')
    then have "0 < length (s # ss) \<and> invoked (s # ss) = take (Suc 0) (s # ss)
                 \<and> first_throw (fn ((s # ss) ! 0)) = Some e"
      using Cons.prems by simp
    then show ?thesis by blast
  qed
qed




lemma sortByPriority_mset [simp]: "mset (sortByPriority xs) = mset xs"
  by (simp add: sortByPriority_def)

lemma sortByPriority_set [simp]: "set (sortByPriority xs) = set xs"
  by (simp add: sortByPriority_def)

section \<open>Order of invocation\<close>







section \<open>Throwing listeners\<close>

text \<open>
  C1. The class has no constructor and no error sink: \<^verbatim>\<open>dispatch\<close> calls each listener
  with no \<^verbatim>\<open>try\<close> around the call. In the scenario of the repository's test
  "remaining listeners still fire after a listener throws" (three listeners on one event,
  the second one throws) the publish throws, and the third listener is not invoked.
\<close>

theorem emit_throwing_listener_aborts:
  "fst (emit ''ping'' 7 ex_throwing) = Inl ''fail''
   \<and> newCalls ex_throwing (snd (emit ''ping'' 7 ex_throwing)) = [(0, 7), (1, 7)]
   \<and> map sid (collectListeners ex_throwing ''ping'') = [0, 1, 2]"
  by code_simp

section \<open>The pause buffer\<close>

lemma on_frame [simp]:
  "buffer (snd (on ev body o1 o2 st)) = buffer st"
  "maxBufferSize (snd (on ev body o1 o2 st)) = maxBufferSize st"
  "paused (snd (on ev body o1 o2 st)) = paused st"
  by (simp_all add: on_def Let_def)

lemma off_frame [simp]:
  "buffer (off h st) = buffer st"
  "maxBufferSize (off h st) = maxBufferSize st"
  "paused (off h st) = paused st"
  by (cases h; simp add: Let_def split: option.splits)+

lemma exec_frame [simp]:
  "buffer (snd (exec as st)) = buffer st"
  "maxBufferSize (snd (exec as st)) = maxBufferSize st"
  "paused (snd (exec as st)) = paused st"
  by (induction as st rule: exec.induct) simp_all

lemma invoke_frame [simp]:
  "buffer (snd (invoke s p st)) = buffer st"
  "maxBufferSize (snd (invoke s p st)) = maxBufferSize st"
  "paused (snd (invoke s p st)) = paused st"
  by (simp_all add: invoke_def)

lemma invokeAll_frame:
  "buffer (snd (invokeAll ls p st)) = buffer st
   \<and> maxBufferSize (snd (invokeAll ls p st)) = maxBufferSize st
   \<and> paused (snd (invokeAll ls p st)) = paused st"
proof (induction ls arbitrary: st)
  case Nil
  show ?case by simp
next
  case (Cons s ss)
  obtain r st' where r: "invoke s p st = (r, st')" by (cases "invoke s p st")
  have "buffer st' = buffer st" "maxBufferSize st' = maxBufferSize st" "paused st' = paused st"
    using invoke_frame[of s p st] r by simp_all
  then show ?case using r Cons.IH[of st'] by (simp split: option.splits)
qed

lemma pruneOnce_frame [simp]:
  "buffer (pruneOnce ev fired st) = buffer st"
  "maxBufferSize (pruneOnce ev fired st) = maxBufferSize st"
  "paused (pruneOnce ev fired st) = paused st"
  by (simp_all add: pruneOnce_def Let_def split: option.splits)

lemma dispatch_frame:
  "buffer (snd (dispatch ev p st)) = buffer st
   \<and> maxBufferSize (snd (dispatch ev p st)) = maxBufferSize st
   \<and> paused (snd (dispatch ev p st)) = paused st"
proof (cases "collectListeners st ev = []")
  case True
  then show ?thesis by (simp add: dispatch_def)
next
  case False
  obtain r st' where r: "invokeAll (collectListeners st ev) p st = (r, st')"
    by (cases "invokeAll (collectListeners st ev) p st")
  have "buffer st' = buffer st \<and> maxBufferSize st' = maxBufferSize st \<and> paused st' = paused st"
    using invokeAll_frame[of "collectListeners st ev" p st] r by simp
  then show ?thesis using False r by (simp add: dispatch_def split: option.splits)
qed

lemma replay_frame:
  "buffer (snd (replay pending st)) = buffer st
   \<and> maxBufferSize (snd (replay pending st)) = maxBufferSize st
   \<and> paused (snd (replay pending st)) = paused st"
proof (induction pending arbitrary: st)
  case Nil
  show ?case by simp
next
  case (Cons x xs)
  obtain ev p where x: "x = (ev, p)" by (cases x)
  obtain r st' where r: "dispatch ev p st = (r, st')" by (cases "dispatch ev p st")
  have "buffer st' = buffer st \<and> maxBufferSize st' = maxBufferSize st \<and> paused st' = paused st"
    using dispatch_frame[of ev p st] r by simp
  then show ?case using x r Cons.IH[of st'] by (simp split: sum.splits)
qed

lemma resume_buffer:
  "buffer (snd (resume st)) = [] \<and> maxBufferSize (snd (resume st)) = maxBufferSize st
   \<and> paused (snd (resume st)) = False"
  using replay_frame[of "buffer st" "st\<lparr>paused := False, buffer := []\<rparr>"]
  by (simp add: resume_def)

lemma emit_bounded: "bufferBounded st \<Longrightarrow> bufferBounded (snd (emit ev p st))"
  using dispatch_frame[of ev p st] by (simp add: emit_def bufferBounded_def)

lemma run_op_bounded:
  assumes "bufferBounded st" and "\<And>n. x = OpSetMaxBufferSize n \<Longrightarrow> int (length (buffer st)) \<le> n"
  shows "bufferBounded (run_op x st)"
proof (cases x)
  case (OpEmit ev p)
  then show ?thesis using assms(1) by (simp add: emit_bounded)
next
  case OpResume
  have "0 \<le> maxBufferSize st" using assms(1) by (simp add: bufferBounded_def)
  then show ?thesis using OpResume resume_buffer[of st] by (simp add: bufferBounded_def)
next
  case (OpSetMaxBufferSize n)
  then show ?thesis using assms(2) by (simp add: bufferBounded_def setMaxBufferSize_def)
next
  case OpDispose
  have "0 \<le> maxBufferSize st" using assms(1) by (simp add: bufferBounded_def)
  then show ?thesis using OpDispose by (simp add: bufferBounded_def dispose_def)
qed (use assms(1) in \<open>simp_all add: bufferBounded_def once_on_def pause_def clear_def
       setMaxListeners_def split: option.splits\<close>)

lemma run_ops_bounded:
  "bufferBounded st \<Longrightarrow> sizeChangesOk ops st \<Longrightarrow> bufferBounded (run_ops ops st)"
proof (induction ops arbitrary: st)
  case Nil
  then show ?case by simp
next
  case (Cons x xs)
  have ok: "\<And>n. x = OpSetMaxBufferSize n \<Longrightarrow> int (length (buffer st)) \<le> n"
    using Cons.prems(2) by auto
  have "bufferBounded (run_op x st)"
    by (rule run_op_bounded[OF Cons.prems(1) ok])
  moreover have "sizeChangesOk xs (run_op x st)"
    using Cons.prems(2) by (cases x) (simp_all del: run_op.simps)
  ultimately show ?case using Cons.IH by simp
qed

lemma emit_full:
  "paused st \<Longrightarrow> maxBufferSize st \<le> int (length (buffer st)) \<Longrightarrow> emit ev p st = (Inr False, st)"
  by (simp add: emit_def)

text \<open>
  C7 (as amended). A new emitter has its buffer within the bound, and a sequence of
  public operations keeps it there when no \<^verbatim>\<open>setMaxBufferSize(n)\<close> of the sequence is called
  with \<open>n\<close> below the length of the buffer at that moment. A publish while paused with a
  full buffer returns false and leaves the emitter as it was, whatever the registry
  holds: nothing is buffered, invoked or logged.
\<close>

theorem buffer_bounded:
  "bufferBounded newEmitter
   \<and> (bufferBounded st \<and> sizeChangesOk ops st \<longrightarrow> bufferBounded (run_ops ops st))
   \<and> (paused st \<and> maxBufferSize st \<le> int (length (buffer st)) \<longrightarrow> emit ev p st = (Inr False, st))"
  using run_ops_bounded[of st ops] emit_full[of st ev p]
  by (auto simp: bufferBounded_def newEmitter_def)


text \<open>
  C7, an instance: with the bound 2 and two events buffered, a third publish, a raise of
  the bound to 5 and a fourth publish keep the buffer within the bound, and the third
  publish changes nothing.
\<close>

theorem buffer_bounded_witness:
  "bufferBounded ex_full
   \<and> sizeChangesOk [OpEmit ''a'' 3, OpSetMaxBufferSize 5, OpEmit ''a'' 4] ex_full
   \<and> bufferBounded (run_ops [OpEmit ''a'' 3, OpSetMaxBufferSize 5, OpEmit ''a'' 4] ex_full)
   \<and> paused ex_full \<and> maxBufferSize ex_full \<le> int (length (buffer ex_full))
   \<and> emit ''a'' 3 ex_full = (Inr False, ex_full)"
proof -
  have a: "bufferBounded ex_full" by code_simp
  have b: "sizeChangesOk [OpEmit ''a'' 3, OpSetMaxBufferSize 5, OpEmit ''a'' 4] ex_full"
    by code_simp
  have c: "paused ex_full" by code_simp
  have d: "maxBufferSize ex_full \<le> int (length (buffer ex_full))" by code_simp
  show ?thesis
    using buffer_bounded[of ex_full "[OpEmit ''a'' 3, OpSetMaxBufferSize 5, OpEmit ''a'' 4]" "''a''" 3]
      a b c d by blast
qed

text \<open>
  C7 as first stated fails: \<^verbatim>\<open>setMaxBufferSize\<close> only stores the new bound, so after three
  events are buffered, \<^verbatim>\<open>setMaxBufferSize(2)\<close> leaves a buffer of length 3 with the bound 2.
\<close>

theorem buffer_exceeds_after_setMaxBufferSize_counterexample:
  "length (buffer ex_shrunk) = 3 \<and> maxBufferSize ex_shrunk = 2 \<and> \<not> bufferBounded ex_shrunk"
  by code_simp

subsection \<open>A bound of zero\<close>

lemma collect_maxBufferSize [simp]:
  "collectListeners (st\<lparr>maxBufferSize := n\<rparr>) ev = collectListeners st ev"
  by (simp add: collectListeners_def)

lemma on_maxBufferSize:
  "on ev body o1 o2 (st\<lparr>maxBufferSize := n\<rparr>)
     = (fst (on ev body o1 o2 st), (snd (on ev body o1 o2 st))\<lparr>maxBufferSize := n\<rparr>)"
  by (simp add: on_def Let_def)

lemma off_maxBufferSize: "off h (st\<lparr>maxBufferSize := n\<rparr>) = (off h st)\<lparr>maxBufferSize := n\<rparr>"
  by (cases h) (simp add: Let_def split: option.splits)

lemma exec_maxBufferSize:
  "exec as (st\<lparr>maxBufferSize := n\<rparr>) = (fst (exec as st), (snd (exec as st))\<lparr>maxBufferSize := n\<rparr>)"
  by (induction as st rule: exec.induct) (simp_all add: off_maxBufferSize on_maxBufferSize)

lemma invoke_maxBufferSize:
  "invoke s p (st\<lparr>maxBufferSize := n\<rparr>)
     = (fst (invoke s p st), (snd (invoke s p st))\<lparr>maxBufferSize := n\<rparr>)"
proof -
  let ?st = "st\<lparr>calls := calls st @ [(sid s, p)]\<rparr>"
  have eq: "(st\<lparr>maxBufferSize := n\<rparr>)\<lparr>calls := calls st @ [(sid s, p)]\<rparr> = ?st\<lparr>maxBufferSize := n\<rparr>"
    by (cases st) simp
  have "invoke s p (st\<lparr>maxBufferSize := n\<rparr>)
          = exec (fn s) ((st\<lparr>maxBufferSize := n\<rparr>)\<lparr>calls := calls st @ [(sid s, p)]\<rparr>)"
    by (simp add: invoke_def)
  also have "\<dots> = exec (fn s) (?st\<lparr>maxBufferSize := n\<rparr>)"
    by (simp only: eq)
  also have "\<dots> = (fst (exec (fn s) ?st), (snd (exec (fn s) ?st))\<lparr>maxBufferSize := n\<rparr>)"
    by (rule exec_maxBufferSize)
  finally show ?thesis by (simp add: invoke_def)
qed

lemma invokeAll_maxBufferSize:
  "invokeAll ls p (st\<lparr>maxBufferSize := n\<rparr>)
     = (fst (invokeAll ls p st), (snd (invokeAll ls p st))\<lparr>maxBufferSize := n\<rparr>)"
proof (induction ls arbitrary: st)
  case Nil
  show ?case by simp
next
  case (Cons s ss)
  obtain r st' where r: "invoke s p st = (r, st')" by (cases "invoke s p st")
  then have "invoke s p (st\<lparr>maxBufferSize := n\<rparr>) = (r, st'\<lparr>maxBufferSize := n\<rparr>)"
    by (simp add: invoke_maxBufferSize)
  then show ?case using r Cons.IH[of st'] by (simp split: option.splits)
qed

lemma pruneOnce_maxBufferSize:
  "pruneOnce ev fired (st\<lparr>maxBufferSize := n\<rparr>) = (pruneOnce ev fired st)\<lparr>maxBufferSize := n\<rparr>"
  by (simp add: pruneOnce_def Let_def split: option.splits)

lemma dispatch_maxBufferSize:
  "dispatch ev p (st\<lparr>maxBufferSize := n\<rparr>)
     = (fst (dispatch ev p st), (snd (dispatch ev p st))\<lparr>maxBufferSize := n\<rparr>)"
proof (cases "collectListeners st ev = []")
  case True
  then show ?thesis by (simp add: dispatch_def)
next
  case False
  obtain r st' where r: "invokeAll (collectListeners st ev) p st = (r, st')"
    by (cases "invokeAll (collectListeners st ev) p st")
  then have "invokeAll (collectListeners st ev) p (st\<lparr>maxBufferSize := n\<rparr>)
               = (r, st'\<lparr>maxBufferSize := n\<rparr>)"
    by (simp add: invokeAll_maxBufferSize)
  then show ?thesis
    using False r by (simp add: dispatch_def pruneOnce_maxBufferSize split: option.splits)
qed

lemma emits_dropped:
  "paused st \<Longrightarrow> maxBufferSize st = 0 \<Longrightarrow> run_ops (map (\<lambda>(e, q). OpEmit e q) es) st = st"
  by (induction es) (simp_all add: emit_full split: prod.splits)

text \<open>
  C10. After \<^verbatim>\<open>setMaxBufferSize(0)\<close> a publish while paused returns false and changes
  nothing; when the buffer was empty, it is still empty after any number of publishes,
  and a resume then only clears the pause flag: no listener is invoked. While the emitter
  is not paused, a publish does what it does without the call of \<^verbatim>\<open>setMaxBufferSize(0)\<close>.
\<close>

theorem zero_buffer_size:
  "(paused st \<longrightarrow> emit ev p (setMaxBufferSize 0 st) = (Inr False, setMaxBufferSize 0 st))
   \<and> (paused st \<and> buffer st = [] \<longrightarrow>
        buffer (run_ops (map (\<lambda>(e, q). OpEmit e q) es) (setMaxBufferSize 0 st)) = []
        \<and> resume (run_ops (map (\<lambda>(e, q). OpEmit e q) es) (setMaxBufferSize 0 st))
            = (Inr (), (setMaxBufferSize 0 st)\<lparr>paused := False\<rparr>))
   \<and> (\<not> paused st \<longrightarrow>
        emit ev p (setMaxBufferSize 0 st)
          = (fst (emit ev p st), setMaxBufferSize 0 (snd (emit ev p st))))"
proof (intro conjI impI)
  assume "paused st"
  then show "emit ev p (setMaxBufferSize 0 st) = (Inr False, setMaxBufferSize 0 st)"
    by (simp add: emit_full setMaxBufferSize_def)
next
  assume a: "paused st \<and> buffer st = []"
  then have e: "run_ops (map (\<lambda>(e, q). OpEmit e q) es) (setMaxBufferSize 0 st) = setMaxBufferSize 0 st"
    by (intro emits_dropped) (simp_all add: setMaxBufferSize_def)
  show "buffer (run_ops (map (\<lambda>(e, q). OpEmit e q) es) (setMaxBufferSize 0 st)) = []"
    using a unfolding e by (simp add: setMaxBufferSize_def)
  show "resume (run_ops (map (\<lambda>(e, q). OpEmit e q) es) (setMaxBufferSize 0 st))
            = (Inr (), (setMaxBufferSize 0 st)\<lparr>paused := False\<rparr>)"
    using a unfolding e by (cases st) (simp add: resume_def setMaxBufferSize_def)
next
  assume "\<not> paused st"
  then show "emit ev p (setMaxBufferSize 0 st)
          = (fst (emit ev p st), setMaxBufferSize 0 (snd (emit ev p st)))"
    by (simp add: emit_def setMaxBufferSize_def dispatch_maxBufferSize)
qed

text \<open>
  C10, two instances: a paused emitter with one listener and an empty buffer, where two
  publishes after \<^verbatim>\<open>setMaxBufferSize(0)\<close> and a resume invoke nothing; and the same emitter
  not paused, where a publish after \<^verbatim>\<open>setMaxBufferSize(0)\<close> invokes the listener.
\<close>

theorem zero_buffer_size_witness:
  "paused ex_paused \<and> buffer ex_paused = []
   \<and> emit ''ping'' 1 (setMaxBufferSize 0 ex_paused) = (Inr False, setMaxBufferSize 0 ex_paused)
   \<and> calls (snd (resume (run_ops (map (\<lambda>(e, q). OpEmit e q) [(''ping'', 1), (''ping'', 2)])
                            (setMaxBufferSize 0 ex_paused)))) = []
   \<and> \<not> paused ex_one
   \<and> fst (emit ''ping'' 1 (setMaxBufferSize 0 ex_one)) = Inr True
   \<and> calls (snd (emit ''ping'' 1 (setMaxBufferSize 0 ex_one))) = [(0, 1)]"
proof -
  have a: "paused ex_paused" by code_simp
  have b: "buffer ex_paused = []" by code_simp
  have c: "calls ((setMaxBufferSize 0 ex_paused)\<lparr>paused := False\<rparr>) = []" by code_simp
  have d: "\<not> paused ex_one" by code_simp
  have e: "fst (emit ''ping'' 1 ex_one) = Inr True" by code_simp
  have f: "calls (setMaxBufferSize 0 (snd (emit ''ping'' 1 ex_one))) = [(0, 1)]" by code_simp
  let ?es = "[(''ping'', 1), (''ping'', 2)] :: (string \<times> payload) list"
  note t1 = zero_buffer_size[of ex_paused "''ping''" 1 ?es]
  have r1: "emit ''ping'' 1 (setMaxBufferSize 0 ex_paused) = (Inr False, setMaxBufferSize 0 ex_paused)"
    using t1 a by blast
  have r2: "resume (run_ops (map (\<lambda>(e, q). OpEmit e q) ?es) (setMaxBufferSize 0 ex_paused))
              = (Inr (), (setMaxBufferSize 0 ex_paused)\<lparr>paused := False\<rparr>)"
    using t1 a b by blast
  have r3: "calls (snd (resume (run_ops (map (\<lambda>(e, q). OpEmit e q) ?es)
                                 (setMaxBufferSize 0 ex_paused)))) = []"
    by (simp only: r2 snd_conv c)
  note t2 = zero_buffer_size[of ex_one "''ping''" 1 "[]"]
  have r4: "emit ''ping'' 1 (setMaxBufferSize 0 ex_one)
              = (fst (emit ''ping'' 1 ex_one), setMaxBufferSize 0 (snd (emit ''ping'' 1 ex_one)))"
    using t2 d by blast
  have r5: "fst (emit ''ping'' 1 (setMaxBufferSize 0 ex_one)) = Inr True"
    by (simp only: r4 fst_conv e)
  have r6: "calls (snd (emit ''ping'' 1 (setMaxBufferSize 0 ex_one))) = [(0, 1)]"
    by (simp only: r4 snd_conv f)
  show ?thesis
    using a b r1 r3 d r5 r6 by blast
qed

section \<open>The registries under the operations\<close>

lemma subseq_distinct: "subseq xs ys \<Longrightarrow> distinct ys \<Longrightarrow> distinct xs"
proof (induction rule: list_emb.induct)
  case (list_emb_Cons2 x y xs ys)
  then show ?case by (auto elim: list_emb_set)
qed simp_all

lemma subseq_set: "subseq xs ys \<Longrightarrow> x \<in> set xs \<Longrightarrow> x \<in> set ys"
  by (auto elim: list_emb_set)

lemma removeStored_subseq: "subseq (removeStored i l) l"
  by (induction l) (auto intro: list_emb_Cons)

lemma removeWild_subseq: "subseq (removeWild i ws) ws"
  by (induction ws) (auto intro: list_emb_Cons)





lemma on_nextId [simp]: "nextId (snd (on ev body o1 o2 st)) = Suc (nextId st)"
  by (simp add: on_def Let_def)

lemma on_exactEntries:
  "exactEntries (snd (on ev body o1 o2 st)) ev' =
     (if CHR ''*'' \<notin> set ev \<and> ev' = ev
      then sortByPriority (exactEntries st ev @
             [\<lparr>sid = nextId st, fn = body, once = (case o1 of None \<Rightarrow> False | Some b \<Rightarrow> b),
               priority = (case o2 of None \<Rightarrow> 0 | Some n \<Rightarrow> n)\<rparr>])
      else exactEntries st ev')"
  by (simp add: on_def exactEntries_def Let_def)

lemma on_wildcardListeners:
  "wildcardListeners (snd (on ev body o1 o2 st)) =
     (if CHR ''*'' \<in> set ev
      then sortWildByPriority (wildcardListeners st @
             [(ev, \<lparr>sid = nextId st, fn = body, once = (case o1 of None \<Rightarrow> False | Some b \<Rightarrow> b),
               priority = (case o2 of None \<Rightarrow> 0 | Some n \<Rightarrow> n)\<rparr>)])
      else wildcardListeners st)"
  by (simp add: on_def Let_def)

lemma off_nextId [simp]: "nextId (off h st) = nextId st"
  by (cases h) (simp add: Let_def split: option.splits)

lemma off_exactEntries:
  "exactEntries (off (Subscription isWild event i) st) ev' =
     (if \<not> isWild \<and> ev' = event then removeStored i (exactEntries st ev') else exactEntries st ev')"
  by (simp add: exactEntries_def Let_def split: option.splits)

lemma off_wildcardListeners:
  "wildcardListeners (off (Subscription isWild event i) st) =
     (if isWild then removeWild i (wildcardListeners st) else wildcardListeners st)"
  by (simp add: Let_def split: option.splits)

lemma pruneOnce_nextId [simp]: "nextId (pruneOnce ev fired st) = nextId st"
  by (simp add: pruneOnce_def Let_def split: option.splits)

lemma foldl_removeStored_Nil [simp]: "foldl (\<lambda>l s. removeStored (sid s) l) [] fs = []"
  by (induction fs) simp_all

lemma pruneOnce_exactEntries:
  "exactEntries (pruneOnce ev fired st) ev' =
     (if ev' = ev then foldl (\<lambda>l s. removeStored (sid s) l) (exactEntries st ev) (filter once fired)
      else exactEntries st ev')"
  by (simp add: pruneOnce_def exactEntries_def Let_def split: option.splits)

lemma pruneOnce_wildcardListeners:
  "wildcardListeners (pruneOnce ev fired st) =
     foldl (\<lambda>ws s. removeWild (sid s) ws) (wildcardListeners st) (filter once fired)"
  by (simp add: pruneOnce_def Let_def split: option.splits)

lemma foldl_removeStored_subseq: "subseq (foldl (\<lambda>l s. removeStored (sid s) l) l fs) l"
proof (induction fs arbitrary: l)
  case Nil
  show ?case by simp
next
  case (Cons f fs)
  have "subseq (foldl (\<lambda>l s. removeStored (sid s) l) (removeStored (sid f) l) fs)
          (removeStored (sid f) l)"
    by (rule Cons.IH)
  then show ?case
    using removeStored_subseq[of "sid f" l] by (auto intro: subseq_order.trans)
qed

lemma foldl_removeWild_subseq: "subseq (foldl (\<lambda>ws s. removeWild (sid s) ws) ws fs) ws"
proof (induction fs arbitrary: ws)
  case Nil
  show ?case by simp
next
  case (Cons f fs)
  have "subseq (foldl (\<lambda>ws s. removeWild (sid s) ws) (removeWild (sid f) ws) fs)
          (removeWild (sid f) ws)"
    by (rule Cons.IH)
  then show ?case
    using removeWild_subseq[of "sid f" ws] by (auto intro: subseq_order.trans)
qed



declare off.simps [simp del]

lemma wf_shrinks:
  assumes "wf st" and "shrinks st st'"
  shows "wf st'"
proof -
  have e: "\<And>ev x. x \<in> set (exactEntries st' ev) \<Longrightarrow> x \<in> set (exactEntries st ev)"
    using assms(2) by (auto simp: shrinks_def intro: subseq_set)
  have w: "\<And>w. w \<in> set (wildcardListeners st') \<Longrightarrow> w \<in> set (wildcardListeners st)"
    using assms(2) by (auto simp: shrinks_def intro: subseq_set)
  have n: "nextId st' = nextId st" using assms(2) by (simp add: shrinks_def)
  have d1: "\<forall>ev. distinct (map sid (exactEntries st' ev))"
  proof
    fix ev
    have "subseq (map sid (exactEntries st' ev)) (map sid (exactEntries st ev))"
      using assms(2) by (simp add: shrinks_def subseq_map)
    moreover have "distinct (map sid (exactEntries st ev))" using assms(1) by (simp add: wf_def)
    ultimately show "distinct (map sid (exactEntries st' ev))" by (rule subseq_distinct)
  qed
  have d2: "distinct (map (\<lambda>w. sid (snd w)) (wildcardListeners st'))"
  proof -
    have "subseq (map (\<lambda>w. sid (snd w)) (wildcardListeners st'))
            (map (\<lambda>w. sid (snd w)) (wildcardListeners st))"
      using assms(2) by (simp add: shrinks_def subseq_map)
    moreover have "distinct (map (\<lambda>w. sid (snd w)) (wildcardListeners st))"
      using assms(1) by (simp add: wf_def)
    ultimately show ?thesis by (rule subseq_distinct)
  qed
  have d3: "\<forall>ev ev' x y. x \<in> set (exactEntries st' ev) \<and> y \<in> set (exactEntries st' ev')
             \<and> sid x = sid y \<longrightarrow> ev = ev'"
    using assms(1) e unfolding wf_def by blast
  have d4: "\<forall>ev x w. x \<in> set (exactEntries st' ev) \<and> w \<in> set (wildcardListeners st')
             \<longrightarrow> sid x \<noteq> sid (snd w)"
    using assms(1) e w unfolding wf_def by blast
  have d5: "\<forall>ev x. x \<in> set (exactEntries st' ev) \<longrightarrow> sid x < nextId st'"
    using assms(1) e n unfolding wf_def by metis
  have d6: "\<forall>w \<in> set (wildcardListeners st'). sid (snd w) < nextId st'"
    using assms(1) w n unfolding wf_def by metis
  show ?thesis unfolding wf_def using d1 d2 d3 d4 d5 d6 by blast
qed

lemma shrinks_off: "shrinks st (off h st)"
proof (cases h)
  case (Subscription isWild event i)
  show ?thesis
    unfolding Subscription shrinks_def
    by (simp add: off_exactEntries off_wildcardListeners removeStored_subseq removeWild_subseq)
qed

lemma shrinks_pruneOnce: "shrinks st (pruneOnce ev fired st)"
  unfolding shrinks_def
  by (simp add: pruneOnce_exactEntries pruneOnce_wildcardListeners
        foldl_removeStored_subseq foldl_removeWild_subseq)

lemma shrinks_clear: "shrinks st (clear optEvent st)"
  unfolding shrinks_def by (cases optEvent) (simp_all add: clear_def exactEntries_def)

lemma shrinks_dispose: "shrinks st (dispose st)"
  unfolding shrinks_def by (simp add: dispose_def exactEntries_def)

lemma sortWild_set [simp]: "set (sortWildByPriority ws) = set ws"
  by (simp add: sortWildByPriority_def)

lemma distinct_map_sortByPriority [simp]:
  "distinct (map sid (sortByPriority xs)) = distinct (map sid xs)"
proof -
  have "mset (map sid (sortByPriority xs)) = mset (map sid xs)" by simp
  then show ?thesis by (rule mset_eq_imp_distinct_iff)
qed

lemma distinct_map_sortWild [simp]:
  "distinct (map (\<lambda>w. sid (snd w)) (sortWildByPriority ws)) = distinct (map (\<lambda>w. sid (snd w)) ws)"
proof -
  have "mset (map (\<lambda>w. sid (snd w)) (sortWildByPriority ws)) = mset (map (\<lambda>w. sid (snd w)) ws)"
    by (simp add: sortWildByPriority_def)
  then show ?thesis by (rule mset_eq_imp_distinct_iff)
qed

lemma wf_on:
  assumes "wf st"
  shows "wf (snd (on ev body o1 o2 st))"
proof -
  let ?st = "snd (on ev body o1 o2 st)"
  let ?s = "\<lparr>sid = nextId st, fn = body, once = (case o1 of None \<Rightarrow> False | Some b \<Rightarrow> b),
             priority = (case o2 of None \<Rightarrow> 0 | Some n \<Rightarrow> n)\<rparr>"
  have b1: "\<And>e x. x \<in> set (exactEntries st e) \<Longrightarrow> sid x < nextId st"
    using assms unfolding wf_def by blast
  have b2: "\<And>w. w \<in> set (wildcardListeners st) \<Longrightarrow> sid (snd w) < nextId st"
    using assms unfolding wf_def by blast
  have a1: "\<And>e. distinct (map sid (exactEntries st e))" using assms unfolding wf_def by blast
  have a2: "distinct (map (\<lambda>w. sid (snd w)) (wildcardListeners st))"
    using assms unfolding wf_def by blast
  have a3: "\<And>e e' x y. x \<in> set (exactEntries st e) \<Longrightarrow> y \<in> set (exactEntries st e')
             \<Longrightarrow> sid x = sid y \<Longrightarrow> e = e'"
    using assms unfolding wf_def by blast
  have a4: "\<And>e x w. x \<in> set (exactEntries st e) \<Longrightarrow> w \<in> set (wildcardListeners st)
             \<Longrightarrow> sid x \<noteq> sid (snd w)"
    using assms unfolding wf_def by blast
  have m: "\<And>e x. x \<in> set (exactEntries ?st e) \<Longrightarrow>
             x \<in> set (exactEntries st e) \<or> (x = ?s \<and> e = ev \<and> CHR ''*'' \<notin> set ev)"
    by (auto simp: on_exactEntries split: if_splits)
  have mw: "\<And>w. w \<in> set (wildcardListeners ?st) \<Longrightarrow>
             w \<in> set (wildcardListeners st) \<or> (w = (ev, ?s) \<and> CHR ''*'' \<in> set ev)"
    by (auto simp: on_wildcardListeners split: if_splits)
  have f1: "\<And>e. nextId st \<notin> sid ` set (exactEntries st e)"
  proof
    fix e
    assume "nextId st \<in> sid ` set (exactEntries st e)"
    then obtain x where "x \<in> set (exactEntries st e)" "sid x = nextId st" by auto
    then show False using b1[of x e] by simp
  qed
  have f2: "nextId st \<notin> (\<lambda>w. sid (snd w)) ` set (wildcardListeners st)"
  proof
    assume "nextId st \<in> (\<lambda>w. sid (snd w)) ` set (wildcardListeners st)"
    then obtain w where "w \<in> set (wildcardListeners st)" "sid (snd w) = nextId st" by auto
    then show False using b2[of w] by simp
  qed
  have d1: "\<forall>e. distinct (map sid (exactEntries ?st e))"
    using a1 f1 by (simp add: on_exactEntries)
  have d2: "distinct (map (\<lambda>w. sid (snd w)) (wildcardListeners ?st))"
    using a2 f2 by (simp add: on_wildcardListeners)
  have d3: "\<forall>e e' x y. x \<in> set (exactEntries ?st e) \<and> y \<in> set (exactEntries ?st e')
             \<and> sid x = sid y \<longrightarrow> e = e'"
  proof (intro allI impI)
    fix e e' x y
    assume h: "x \<in> set (exactEntries ?st e) \<and> y \<in> set (exactEntries ?st e') \<and> sid x = sid y"
    show "e = e'"
      using m[of x e] m[of y e'] h a3[of x e y e'] b1[of x e] b1[of y e'] by auto
  qed
  have d4: "\<forall>e x w. x \<in> set (exactEntries ?st e) \<and> w \<in> set (wildcardListeners ?st)
             \<longrightarrow> sid x \<noteq> sid (snd w)"
  proof (intro allI impI)
    fix e x w
    assume h: "x \<in> set (exactEntries ?st e) \<and> w \<in> set (wildcardListeners ?st)"
    show "sid x \<noteq> sid (snd w)"
      using m[of x e] mw[of w] h a4[of x e w] b1[of x e] b2[of w] by auto
  qed
  have d5: "\<forall>e x. x \<in> set (exactEntries ?st e) \<longrightarrow> sid x < nextId ?st"
  proof (intro allI impI)
    fix e x
    assume "x \<in> set (exactEntries ?st e)"
    then show "sid x < nextId ?st" using m[of x e] b1[of x e] by auto
  qed
  have d6: "\<forall>w \<in> set (wildcardListeners ?st). sid (snd w) < nextId ?st"
  proof
    fix w
    assume "w \<in> set (wildcardListeners ?st)"
    then show "sid (snd w) < nextId ?st" using mw[of w] b2[of w] by auto
  qed
  show ?thesis unfolding wf_def using d1 d2 d3 d4 d5 d6 by blast
qed

lemma wf_calls [simp]: "wf (st\<lparr>calls := c\<rparr>) = wf st"
  by (simp add: wf_def exactEntries_def)

lemma wf_off: "wf st \<Longrightarrow> wf (off h st)"
  by (rule wf_shrinks[OF _ shrinks_off])

lemma wf_pruneOnce: "wf st \<Longrightarrow> wf (pruneOnce ev fired st)"
  by (rule wf_shrinks[OF _ shrinks_pruneOnce])

lemma wf_exec: "wf st \<Longrightarrow> wf (snd (exec as st))"
  by (induction as st rule: exec.induct) (simp_all add: wf_off wf_on)

lemma wf_invoke: "wf st \<Longrightarrow> wf (snd (invoke s p st))"
  by (simp add: invoke_def wf_exec)

lemma wf_invokeAll: "wf st \<Longrightarrow> wf (snd (invokeAll ls p st))"
proof (induction ls arbitrary: st)
  case Nil
  then show ?case by simp
next
  case (Cons s ss)
  obtain r st' where r: "invoke s p st = (r, st')" by (cases "invoke s p st")
  have "wf st'" using wf_invoke[OF Cons.prems, of s p] r by simp
  then show ?case using r Cons.IH[of st'] by (simp split: option.splits)
qed

lemma wf_dispatch: "wf st \<Longrightarrow> wf (snd (dispatch ev p st))"
proof -
  assume a: "wf st"
  obtain r st' where r: "invokeAll (collectListeners st ev) p st = (r, st')"
    by (cases "invokeAll (collectListeners st ev) p st")
  have "wf st'" using wf_invokeAll[OF a, of "collectListeners st ev" p] r by simp
  then show ?thesis using a r by (simp add: dispatch_def Let_def wf_pruneOnce split: option.splits)
qed

lemma wf_newEmitter: "wf newEmitter"
  by (simp add: wf_def newEmitter_def exactEntries_def)

section \<open>Listeners that are gone stay gone\<close>























section \<open>Once-listeners\<close>







section \<open>What a dispatch leaves registered\<close>



lemma entries_calls [simp]: "entries (st\<lparr>calls := c\<rparr>) = entries st"
  by (simp add: entries_def)









section \<open>The snapshot of a dispatch\<close>




section \<open>Replay on resume\<close>




lemma collect_resume_state [simp]:
  "collectListeners (st\<lparr>paused := False, buffer := []\<rparr>) ev = collectListeners st ev"
  by (simp add: collectListeners_def)







section \<open>Every reachable emitter is well-formed\<close>

lemma wf_same:
  "listeners st' = listeners st \<Longrightarrow> wildcardListeners st' = wildcardListeners st
     \<Longrightarrow> nextId st' = nextId st \<Longrightarrow> wf st' = wf st"
  by (simp add: wf_def exactEntries_def)

lemma wf_replay: "wf st \<Longrightarrow> wf (snd (replay pending st))"
proof (induction pending arbitrary: st)
  case Nil
  then show ?case by simp
next
  case (Cons x xs)
  obtain ev p where x: "x = (ev, p)" by (cases x)
  obtain r st' where r: "dispatch ev p st = (r, st')" by (cases "dispatch ev p st")
  have w: "wf st'" using wf_dispatch[OF Cons.prems, of ev p] r by simp
  show ?case
  proof (cases r)
    case (Inl e)
    then show ?thesis using x r w by simp
  next
    case (Inr b)
    then show ?thesis using x r Cons.IH[OF w] by simp
  qed
qed

lemma wf_resume: "wf st \<Longrightarrow> wf (snd (resume st))"
proof -
  assume a: "wf st"
  have "wf (st\<lparr>paused := False, buffer := []\<rparr>) = wf st" by (rule wf_same) simp_all
  then have "wf (st\<lparr>paused := False, buffer := []\<rparr>)" using a by simp
  then show ?thesis unfolding resume_def by (rule wf_replay)
qed

lemma wf_emit: "wf st \<Longrightarrow> wf (snd (emit ev p st))"
proof (cases "paused st")
  case True
  assume a: "wf st"
  have "wf (snd (emit ev p st)) = wf st" using True by (intro wf_same) (simp_all add: emit_def)
  then show ?thesis using a by simp
next
  case False
  assume "wf st"
  then show ?thesis using False by (simp add: emit_def wf_dispatch)
qed

lemma wf_run_op:
  assumes "wf st"
  shows "wf (run_op x st)"
proof (cases x)
  case (OpOn ev body o1 o2)
  then show ?thesis using assms by (simp add: wf_on)
next
  case (OpOnce ev body o2)
  then show ?thesis using assms by (simp add: once_on_def wf_on)
next
  case (OpOff h)
  then show ?thesis using assms by (simp add: wf_off)
next
  case (OpEmit ev p)
  then show ?thesis using assms by (simp add: wf_emit)
next
  case OpPause
  have "wf (pause st) = wf st" by (rule wf_same) (simp_all add: pause_def)
  then show ?thesis using assms OpPause by simp
next
  case OpResume
  then show ?thesis using assms by (simp add: wf_resume)
next
  case (OpClear optEvent)
  then show ?thesis using wf_shrinks[OF assms shrinks_clear] by simp
next
  case OpDispose
  then show ?thesis using wf_shrinks[OF assms shrinks_dispose] by simp
next
  case (OpSetMaxListeners n)
  have "wf (setMaxListeners n st) = wf st" by (rule wf_same) (simp_all add: setMaxListeners_def)
  then show ?thesis using assms OpSetMaxListeners by simp
next
  case (OpSetMaxBufferSize n)
  have "wf (setMaxBufferSize n st) = wf st" by (rule wf_same) (simp_all add: setMaxBufferSize_def)
  then show ?thesis using assms OpSetMaxBufferSize by simp
qed

lemma wf_run_ops: "wf st \<Longrightarrow> wf (run_ops ops st)"
  by (induction ops arbitrary: st) (simp_all add: wf_run_op del: run_op.simps)

lemma wf_reachable: "wf (run_ops ops newEmitter)"
  by (rule wf_run_ops[OF wf_newEmitter])

end
